theory Spec2Isabelle
  imports Complex_Main "HOL-Library.AList" "HOL-Library.Signed_Division" "HOL-Library.Log_Nat"
begin

section \<open>Data model (types.ts)\<close>

text \<open>
  JavaScript numbers that hold squares, rows, columns and offsets are whole numbers far
  below \<open>2^53\<close>, where double arithmetic is exact; they are modelled as \<open>int\<close>.
  Weights and draw values are doubles: they are modelled as the \<open>real\<close> numbers they
  denote, and every multiplication, addition and subtraction on them rounds its exact
  result to the nearest double (see \<open>roundDouble\<close> below). Piece ids are strings.
\<close>

datatype PieceType = QUEEN | ROOK | BISHOP | KNIGHT | KING | PAWN

datatype PieceColor = WHITE | BLACK

record Piece =
  idP :: string
  typeP :: PieceType
  color :: PieceColor
  square :: int
  isVisible :: bool

section \<open>JavaScript helpers\<close>

text \<open>\<open>a % b\<close> of JavaScript takes the sign of the dividend.\<close>

definition js_rem :: "int \<Rightarrow> int \<Rightarrow> int" where
  "js_rem a b = a smod b"

text \<open>
  IEEE 754 binary64. A double other than 0 is \<open>m * 2^q\<close> with a whole \<open>m\<close> of at most
  53 bits and \<open>q \<ge> -1074\<close>. \<open>binaryExponent x\<close> is the \<open>e\<close> with
  \<open>2^e \<le> x < 2^(e+1)\<close> for a positive \<open>x\<close>; \<open>roundDouble\<close> rounds a real number to the
  nearest double, ties to the even significand, as every arithmetic operation of
  JavaScript does. Overflow to \<open>Infinity\<close> is left out: it takes a magnitude of
  \<open>2^1024\<close>, and the selector's numbers are bounded by the 64 squares and the length of
  the history.
\<close>

definition pow2 :: "int \<Rightarrow> real" where
  "pow2 e = (if 0 \<le> e then 2 ^ nat e else 1 / 2 ^ nat (- e))"

definition binaryExponent :: "real \<Rightarrow> int" where
  "binaryExponent x = (if 1 \<le> x then bitlen \<lfloor>x\<rfloor> - 1 else - bitlen (\<lceil>1 / x\<rceil> - 1))"

definition roundHalfEven :: "real \<Rightarrow> int" where
  "roundHalfEven y =
     (let f = \<lfloor>y\<rfloor>;
          r = y - of_int f
      in if r < 1 / 2 then f else if 1 / 2 < r then f + 1 else if even f then f else f + 1)"

definition roundDouble :: "real \<Rightarrow> real" where
  "roundDouble x =
     (if x = 0 then 0
      else let q = max (binaryExponent \<bar>x\<bar> - 52) (- 1074)
           in of_int (roundHalfEven (x / pow2 q)) * pow2 q)"

text \<open>The operators \<open>*\<close>, \<open>+\<close> and \<open>-\<close> on doubles.\<close>

definition dblMul :: "real \<Rightarrow> real \<Rightarrow> real" where
  "dblMul a b = roundDouble (a * b)"

definition dblAdd :: "real \<Rightarrow> real \<Rightarrow> real" where
  "dblAdd a b = roundDouble (a + b)"

definition dblSub :: "real \<Rightarrow> real \<Rightarrow> real" where
  "dblSub a b = roundDouble (a - b)"

text \<open>
  \<open>[...new Set(moves)]\<close>: a Set keeps insertion order and ignores a value that
  is already present, so the first occurrence of every value survives.
\<close>

fun setInsert :: "'a list \<Rightarrow> 'a list \<Rightarrow> 'a list" where
  "setInsert seen [] = seen"
| "setInsert seen (x # xs) = setInsert (if x \<in> set seen then seen else seen @ [x]) xs"

definition spreadSet :: "'a list \<Rightarrow> 'a list" where
  "spreadSet moves = setInsert [] moves"

section \<open>Move generator (getLegalMoves of the file holding generateTargetSquare)\<close>

definition onBoard :: "int \<Rightarrow> int \<Rightarrow> bool" where
  "onBoard r c \<longleftrightarrow> r \<ge> 0 \<and> r < 8 \<and> c \<ge> 0 \<and> c < 8"

definition addIfOnBoard :: "int \<Rightarrow> int \<Rightarrow> int option" where
  "addIfOnBoard r c = (if r \<ge> 0 \<and> r < 8 \<and> c \<ge> 0 \<and> c < 8 then Some (r * 8 + c) else None)"

text \<open>
  The \<open>while\<close> loop of \<open>addSlidingMoves\<close> for one direction. It is written for any
  \<open>(dr, dc)\<close>; with \<open>dr = dc = 0\<close> on an unblocked board square it would never
  leave, so the loop is a partial function and \<open>None\<close> stands for not returning.
\<close>

partial_function (option) slideLoop ::
  "int list \<Rightarrow> int \<Rightarrow> int \<Rightarrow> int \<Rightarrow> int \<Rightarrow> int list \<Rightarrow> int list option" where
  "slideLoop blockers dr dc r c moves =
     (if r \<ge> 0 \<and> r < 8 \<and> c \<ge> 0 \<and> c < 8 then
        (let targetSquare = r * 8 + c;
             moves' = moves @ [targetSquare]
         in if targetSquare \<in> set blockers then Some moves'
            else slideLoop blockers dr dc (r + dr) (c + dc) moves')
      else Some moves)"

declare slideLoop.simps [code]

fun addSlidingMoves ::
  "int \<Rightarrow> int \<Rightarrow> int list \<Rightarrow> (int \<times> int) list \<Rightarrow> int list \<Rightarrow> int list option" where
  "addSlidingMoves row col blockers [] moves = Some moves"
| "addSlidingMoves row col blockers ((dr, dc) # directions) moves =
     (case slideLoop blockers dr dc (row + dr) (col + dc) moves of
        None \<Rightarrow> None
      | Some moves' \<Rightarrow> addSlidingMoves row col blockers directions moves')"

definition knightOffsets :: "(int \<times> int) list" where
  "knightOffsets = [(-2, -1), (-2, 1), (-1, -2), (-1, 2), (1, -2), (1, 2), (2, -1), (2, 1)]"

definition rookDirections :: "(int \<times> int) list" where
  "rookDirections = [(-1, 0), (1, 0), (0, -1), (0, 1)]"

definition bishopDirections :: "(int \<times> int) list" where
  "bishopDirections = [(-1, -1), (-1, 1), (1, -1), (1, 1)]"

definition queenDirections :: "(int \<times> int) list" where
  "queenDirections = [(-1, 0), (1, 0), (0, -1), (0, 1), (-1, -1), (-1, 1), (1, -1), (1, 1)]"

text \<open>The two nested \<open>for\<close> loops of the KING case, \<open>dr\<close> outside and \<open>dc\<close> inside.\<close>

definition kingOffsets :: "(int \<times> int) list" where
  "kingOffsets = [(dr, dc). dr \<leftarrow> [-1, 0, 1], dc \<leftarrow> [-1, 0, 1], \<not> (dr = 0 \<and> dc = 0)]"

text \<open>Pushing every offset's target that \<open>addIfOnBoard\<close> does not answer with \<open>null\<close>.\<close>

fun addOffsetMoves :: "int \<Rightarrow> int \<Rightarrow> (int \<times> int) list \<Rightarrow> int list \<Rightarrow> int list" where
  "addOffsetMoves row col [] moves = moves"
| "addOffsetMoves row col ((dr, dc) # offsets) moves =
     (case addIfOnBoard (row + dr) (col + dc) of
        None \<Rightarrow> addOffsetMoves row col offsets moves
      | Some target \<Rightarrow> addOffsetMoves row col offsets (moves @ [target]))"

definition getLegalMoves :: "int \<Rightarrow> PieceType \<Rightarrow> int list \<Rightarrow> int list option" where
  "getLegalMoves sq type blockers =
     (let row = sq div 8;
          col = js_rem sq 8
      in map_option spreadSet
           (case type of
              KNIGHT \<Rightarrow> Some (addOffsetMoves row col knightOffsets [])
            | ROOK \<Rightarrow> addSlidingMoves row col blockers rookDirections []
            | BISHOP \<Rightarrow> addSlidingMoves row col blockers bishopDirections []
            | QUEEN \<Rightarrow> addSlidingMoves row col blockers queenDirections []
            | KING \<Rightarrow> Some (addOffsetMoves row col kingOffsets [])
            | PAWN \<Rightarrow> Some []))"

section \<open>Move generator (the standalone documented getLegalMoves)\<close>

text \<open>
  The second source file defines \<open>getLegalMoves\<close> again, with its own local helpers.
  It is embedded on its own, literal by literal, so that the two can be compared.
\<close>

definition addIfOnBoard_doc :: "int \<Rightarrow> int \<Rightarrow> int option" where
  "addIfOnBoard_doc r c = (if r \<ge> 0 \<and> r < 8 \<and> c \<ge> 0 \<and> c < 8 then Some (r * 8 + c) else None)"

partial_function (option) slideLoop_doc ::
  "int list \<Rightarrow> int \<Rightarrow> int \<Rightarrow> int \<Rightarrow> int \<Rightarrow> int list \<Rightarrow> int list option" where
  "slideLoop_doc blockers dr dc r c moves =
     (if r \<ge> 0 \<and> r < 8 \<and> c \<ge> 0 \<and> c < 8 then
        (let targetSquare = r * 8 + c;
             moves' = moves @ [targetSquare]
         in if targetSquare \<in> set blockers then Some moves'
            else slideLoop_doc blockers dr dc (r + dr) (c + dc) moves')
      else Some moves)"

declare slideLoop_doc.simps [code]

fun addSlidingMoves_doc ::
  "int \<Rightarrow> int \<Rightarrow> int list \<Rightarrow> (int \<times> int) list \<Rightarrow> int list \<Rightarrow> int list option" where
  "addSlidingMoves_doc row col blockers [] moves = Some moves"
| "addSlidingMoves_doc row col blockers ((dr, dc) # directions) moves =
     (case slideLoop_doc blockers dr dc (row + dr) (col + dc) moves of
        None \<Rightarrow> None
      | Some moves' \<Rightarrow> addSlidingMoves_doc row col blockers directions moves')"

fun addOffsetMoves_doc :: "int \<Rightarrow> int \<Rightarrow> (int \<times> int) list \<Rightarrow> int list \<Rightarrow> int list" where
  "addOffsetMoves_doc row col [] moves = moves"
| "addOffsetMoves_doc row col ((dr, dc) # offsets) moves =
     (case addIfOnBoard_doc (row + dr) (col + dc) of
        None \<Rightarrow> addOffsetMoves_doc row col offsets moves
      | Some target \<Rightarrow> addOffsetMoves_doc row col offsets (moves @ [target]))"

definition getLegalMoves_doc :: "int \<Rightarrow> PieceType \<Rightarrow> int list \<Rightarrow> int list option" where
  "getLegalMoves_doc sq type blockers =
     (let row = sq div 8;
          col = js_rem sq 8
      in map_option spreadSet
           (case type of
              KNIGHT \<Rightarrow>
                Some (addOffsetMoves_doc row col
                  [(-2, -1), (-2, 1), (-1, -2), (-1, 2), (1, -2), (1, 2), (2, -1), (2, 1)] [])
            | ROOK \<Rightarrow> addSlidingMoves_doc row col blockers [(-1, 0), (1, 0), (0, -1), (0, 1)] []
            | BISHOP \<Rightarrow> addSlidingMoves_doc row col blockers [(-1, -1), (-1, 1), (1, -1), (1, 1)] []
            | QUEEN \<Rightarrow>
                addSlidingMoves_doc row col blockers
                  [(-1, 0), (1, 0), (0, -1), (0, 1), (-1, -1), (-1, 1), (1, -1), (1, 1)] []
            | KING \<Rightarrow>
                Some (addOffsetMoves_doc row col
                  [(dr, dc). dr \<leftarrow> [-1, 0, 1], dc \<leftarrow> [-1, 0, 1], \<not> (dr = 0 \<and> dc = 0)] [])
            | PAWN \<Rightarrow> Some []))"

section \<open>Target selector (generateTargetSquare)\<close>

text \<open>
  A JavaScript \<open>Map\<close> is an association list in insertion order: \<open>set\<close> replaces the
  value of a key that is present where it stands and appends a new key at the end;
  \<open>get\<close> is \<open>map_of\<close>, with \<open>None\<close> for \<open>undefined\<close>.
\<close>

definition mapSet :: "('k \<times> 'v) list \<Rightarrow> 'k \<Rightarrow> 'v \<Rightarrow> ('k \<times> 'v) list" where
  "mapSet m k v = AList.update k v m"

text \<open>
  What a call hands back: a number, \<open>undefined\<close> (an array read out of range), or a
  thrown TypeError (a property read on \<open>undefined\<close>).
\<close>

datatype outcome = Returned int | ReturnedUndefined | Thrown

definition nthJs :: "int list \<Rightarrow> int \<Rightarrow> outcome" where
  "nthJs xs i = (if 0 \<le> i \<and> i < int (length xs) then Returned (xs ! nat i) else ReturnedUndefined)"

text \<open>
  \<open>Math.floor(Math.random() * n)\<close>, with \<open>u\<close> the value of \<open>Math.random()\<close>. The index is
  the floor of the exact product \<open>u * n\<close>. The code rounds the product to a double before
  the floor; a whole number is a double and rounding is monotone, so the two indices
  differ only when \<open>u * n\<close> lies less than one rounding step below a whole number, where
  the code's index is the next one.
\<close>

definition randomIndex :: "real \<Rightarrow> nat \<Rightarrow> int" where
  "randomIndex u n = \<lfloor>u * real n\<rfloor>"

text \<open>Step 1, the body of \<open>pieces.forEach\<close>: blockers, legal moves, the filter to empty squares.\<close>

definition validMovesOf :: "Piece list \<Rightarrow> Piece \<Rightarrow> int list option" where
  "validMovesOf pieces p =
     (let blockers = filter (\<lambda>sq. sq \<noteq> square p) (map square pieces)
      in case getLegalMoves (square p) (typeP p) blockers of
           None \<Rightarrow> None
         | Some moves \<Rightarrow>
             Some (filter (\<lambda>m. \<not> list_ex (\<lambda>occupied. square occupied = m) pieces) moves))"

record Reach =
  pieceMoves :: "(string \<times> int list) list"
  squareReachCounts :: "(int \<times> nat) list"
  squareReacher :: "(int \<times> string) list"

fun countMoves :: "string \<Rightarrow> int list \<Rightarrow> Reach \<Rightarrow> Reach" where
  "countMoves pid [] st = st"
| "countMoves pid (m # validMoves) st =
     (let count = (case map_of (squareReachCounts st) m of None \<Rightarrow> 0 | Some n \<Rightarrow> n);
          st' = st\<lparr>squareReachCounts := mapSet (squareReachCounts st) m (count + 1)\<rparr>;
          st'' = (if count = 0 then st'\<lparr>squareReacher := mapSet (squareReacher st') m pid\<rparr> else st')
      in countMoves pid validMoves st'')"

fun reachLoop :: "Piece list \<Rightarrow> Piece list \<Rightarrow> Reach \<Rightarrow> Reach option" where
  "reachLoop pieces [] st = Some st"
| "reachLoop pieces (p # ps) st =
     (case validMovesOf pieces p of
        None \<Rightarrow> None
      | Some validMoves \<Rightarrow>
          reachLoop pieces ps
            (countMoves (idP p) validMoves
               (st\<lparr>pieceMoves := mapSet (pieceMoves st) (idP p) validMoves\<rparr>)))"

definition reachability :: "Piece list \<Rightarrow> Reach option" where
  "reachability pieces =
     reachLoop pieces pieces \<lparr>pieceMoves = [], squareReachCounts = [], squareReacher = []\<rparr>"

text \<open>Step 2: the squares whose count is exactly 1, in the order of the map's entries.\<close>

definition uniqueTargetsOf :: "(int \<times> nat) list \<Rightarrow> int list" where
  "uniqueTargetsOf counts = map fst (filter (\<lambda>(sq, count). count = 1) counts)"

text \<open>The fallback pool: every stored move list, one after the other.\<close>

definition allMovesOf :: "(string \<times> int list) list \<Rightarrow> int list" where
  "allMovesOf pm = concat (map snd pm)"

text \<open>
  Step 3: the weight of one piece id, and the map of all of them. The literals \<open>0.3\<close>
  and \<open>0.6\<close> are the doubles nearest to 3/10 and 6/10; \<open>historyCount * 0.3\<close> and both
  subtractions round.
\<close>

definition pieceWeight :: "string list \<Rightarrow> string \<Rightarrow> real" where
  "pieceWeight history pid =
     (let weight = 1;
          historyCount = length (filter (\<lambda>i. i = pid) history);
          weight = dblSub weight (dblMul (real historyCount) (roundDouble (3 / 10)));
          weight = (if length history > 0 \<and> history ! (length history - 1) = pid
                    then dblSub weight (roundDouble (6 / 10)) else weight);
          weight = (if length history \<ge> 2 \<and> history ! (length history - 1) = pid
                       \<and> history ! (length history - 2) = pid
                    then 0 else weight)
      in max 0 weight)"

fun weightLoop :: "string list \<Rightarrow> Piece list \<Rightarrow> (string \<times> real) list \<Rightarrow> (string \<times> real) list" where
  "weightLoop history [] pieceWeights = pieceWeights"
| "weightLoop history (p # ps) pieceWeights =
     weightLoop history ps (mapSet pieceWeights (idP p) (pieceWeight history (idP p)))"

text \<open>
  Step 4: the pool. \<open>pieceWeights.get(pieceId) || 0\<close> is 0 for a missing id (and for a
  weight that is 0 already).
\<close>

definition weightedPoolOf ::
  "int list \<Rightarrow> (int \<times> string) list \<Rightarrow> (string \<times> real) list \<Rightarrow> (int \<times> real) list" where
  "weightedPoolOf uniqueTargets reacher pieceWeights =
     map (\<lambda>sq. (sq, (case map_of reacher sq of
                        None \<Rightarrow> 0
                      | Some pieceId \<Rightarrow>
                          (case map_of pieceWeights pieceId of None \<Rightarrow> 0 | Some w \<Rightarrow> w))))
       uniqueTargets"

text \<open>
  The closing \<open>for\<close> loop over the pool, with \<open>random -= item.weight\<close> rounding, and the
  \<open>return weightedPool[0].sq\<close> after it.
\<close>

fun weightedWalk :: "(int \<times> real) list \<Rightarrow> real \<Rightarrow> int option" where
  "weightedWalk [] random = None"
| "weightedWalk ((sq, weight) # items) random =
     (if random < weight then Some sq else weightedWalk items (dblSub random weight))"

definition weightedDraw :: "(int \<times> real) list \<Rightarrow> real \<Rightarrow> outcome" where
  "weightedDraw weightedPool random =
     (case weightedWalk weightedPool random of
        Some sq \<Rightarrow> Returned sq
      | None \<Rightarrow> (case weightedPool of [] \<Rightarrow> Thrown | (sq, weight) # items \<Rightarrow> Returned sq))"

text \<open>
  The whole function. \<open>u\<close> is the value \<open>Math.random()\<close> yields on the one path that
  calls it; \<open>None\<close> is a call that does not return. \<open>totalPoolWeight += weight\<close> adds
  the weights up from 0 in pool order, each addition rounding, and
  \<open>Math.random() * totalPoolWeight\<close> rounds.
\<close>

definition generateTargetSquare :: "Piece list \<Rightarrow> string list \<Rightarrow> real \<Rightarrow> outcome option" where
  "generateTargetSquare pieces history u =
     (case reachability pieces of
        None \<Rightarrow> None
      | Some st \<Rightarrow>
          Some
            (let uniqueTargets = uniqueTargetsOf (squareReachCounts st)
             in if length uniqueTargets = 0 then
                  (let allMoves = allMovesOf (pieceMoves st)
                   in if length allMoves = 0 then Returned (- 1)
                      else nthJs allMoves (randomIndex u (length allMoves)))
                else
                  (let pieceWeights = weightLoop history pieces [];
                       weightedPool = weightedPoolOf uniqueTargets (squareReacher st) pieceWeights;
                       totalPoolWeight = foldl dblAdd 0 (map snd weightedPool)
                   in if totalPoolWeight \<le> 0 then
                        nthJs uniqueTargets (randomIndex u (length uniqueTargets))
                      else weightedDraw weightedPool (dblMul u totalPoolWeight))))"

section \<open>History update (handlePieceSelect)\<close>

text \<open>\<open>[...prev.moveHistory, validPiece.id]\<close>, then \<open>shift()\<close> when longer than 5.\<close>

definition updateHistory :: "string list \<Rightarrow> string \<Rightarrow> string list" where
  "updateHistory moveHistory pid =
     (let updatedHistory = moveHistory @ [pid]
      in if length updatedHistory > 5 then tl updatedHistory else updatedHistory)"

section \<open>Notions used to state and prove the properties\<close>

subsection \<open>Rays: the sliding loop with the number of steps bounded\<close>

text \<open>
  \<open>ray n\<close> is the list one direction contributes when the loop makes at most \<open>n\<close>
  steps; \<open>stepsLeft\<close> bounds the steps a non-zero direction can still make on the board.
  The loop is shown below to return exactly \<open>ray 8\<close>.
\<close>

fun ray :: "nat \<Rightarrow> int list \<Rightarrow> int \<Rightarrow> int \<Rightarrow> int \<Rightarrow> int \<Rightarrow> int list" where
  "ray 0 blockers dr dc r c = []"
| "ray (Suc n) blockers dr dc r c =
     (if onBoard r c then
        (r * 8 + c) #
          (if r * 8 + c \<in> set blockers then [] else ray n blockers dr dc (r + dr) (c + dc))
      else [])"

definition stepsLeft :: "int \<Rightarrow> int \<Rightarrow> int \<Rightarrow> int \<Rightarrow> nat" where
  "stepsLeft dr dc r c =
     (if dr > 0 then nat (8 - r) else if dr < 0 then nat (r + 1)
      else if dc > 0 then nat (8 - c) else nat (c + 1))"

definition rays :: "int \<Rightarrow> int \<Rightarrow> int list \<Rightarrow> (int \<times> int) list \<Rightarrow> int list" where
  "rays row col blockers directions =
     concat (map (\<lambda>(dr, dc). ray 8 blockers dr dc (row + dr) (col + dc)) directions)"

text \<open>The list \<open>getLegalMoves\<close> returns, as a total function.\<close>

definition legalMoves :: "int \<Rightarrow> PieceType \<Rightarrow> int list \<Rightarrow> int list" where
  "legalMoves sq type blockers =
     (let row = sq div 8;
          col = js_rem sq 8
      in spreadSet
           (case type of
              KNIGHT \<Rightarrow> addOffsetMoves row col knightOffsets []
            | ROOK \<Rightarrow> rays row col blockers rookDirections
            | BISHOP \<Rightarrow> rays row col blockers bishopDirections
            | QUEEN \<Rightarrow> rays row col blockers queenDirections
            | KING \<Rightarrow> addOffsetMoves row col kingOffsets []
            | PAWN \<Rightarrow> []))"

text \<open>
  The directions in the words of the specification: a step of one square along a row
  or a column is orthogonal, a step of one square along both is diagonal; the rook
  slides in the 4 orthogonal directions, the bishop in the 4 diagonal ones, the queen
  in both, and no other kind slides.
\<close>

definition orthogonal :: "int \<times> int \<Rightarrow> bool" where
  "orthogonal d \<longleftrightarrow> (\<bar>fst d\<bar> = 1 \<and> snd d = 0) \<or> (fst d = 0 \<and> \<bar>snd d\<bar> = 1)"

definition diagonal :: "int \<times> int \<Rightarrow> bool" where
  "diagonal d \<longleftrightarrow> \<bar>fst d\<bar> = 1 \<and> \<bar>snd d\<bar> = 1"

definition specDirection :: "PieceType \<Rightarrow> int \<times> int \<Rightarrow> bool" where
  "specDirection type d =
     (case type of
        ROOK \<Rightarrow> orthogonal d
      | BISHOP \<Rightarrow> diagonal d
      | QUEEN \<Rightarrow> orthogonal d \<or> diagonal d
      | _ \<Rightarrow> False)"

text \<open>The list of directions the code slides along for a kind (none for the other kinds).\<close>

definition slidingDirections :: "PieceType \<Rightarrow> (int \<times> int) list" where
  "slidingDirections type =
     (case type of
        ROOK \<Rightarrow> rookDirections
      | BISHOP \<Rightarrow> bishopDirections
      | QUEEN \<Rightarrow> queenDirections
      | _ \<Rightarrow> [])"

text \<open>
  The square \<open>k\<close> steps away from \<open>sq\<close> in direction \<open>(dr, dc)\<close>, and whether that
  step is still on the board.
\<close>

definition stepSquare :: "int \<Rightarrow> int \<Rightarrow> int \<Rightarrow> nat \<Rightarrow> int" where
  "stepSquare sq dr dc k = (sq div 8 + int k * dr) * 8 + (js_rem sq 8 + int k * dc)"

definition stepOnBoard :: "int \<Rightarrow> int \<Rightarrow> int \<Rightarrow> nat \<Rightarrow> bool" where
  "stepOnBoard sq dr dc k = onBoard (sq div 8 + int k * dr) (js_rem sq 8 + int k * dc)"

subsection \<open>Valid move sets and reachability counts\<close>


definition validMoves :: "Piece list \<Rightarrow> Piece \<Rightarrow> int list" where
  "validMoves pieces p =
     filter (\<lambda>m. \<not> list_ex (\<lambda>occupied. square occupied = m) pieces)
       (legalMoves (square p) (typeP p) (filter (\<lambda>sq. sq \<noteq> square p) (map square pieces)))"

fun reachFold :: "Piece list \<Rightarrow> Piece list \<Rightarrow> Reach \<Rightarrow> Reach" where
  "reachFold pieces [] st = st"
| "reachFold pieces (p # ps) st =
     reachFold pieces ps
       (countMoves (idP p) (validMoves pieces p)
          (st\<lparr>pieceMoves := mapSet (pieceMoves st) (idP p) (validMoves pieces p)\<rparr>))"

text \<open>A piece reaches a square when the square is in its valid move set.\<close>

definition reaches :: "Piece list \<Rightarrow> Piece \<Rightarrow> int \<Rightarrow> bool" where
  "reaches pieces p s = (case validMovesOf pieces p of None \<Rightarrow> False | Some ms \<Rightarrow> s \<in> set ms)"

text \<open>The reachability count of a square: how many pieces of the list reach it.\<close>

definition reachCount :: "Piece list \<Rightarrow> int \<Rightarrow> nat" where
  "reachCount pieces s = length (filter (\<lambda>p. reaches pieces p s) pieces)"

subsection \<open>The weight and the weighted draw in the words of the specification\<close>

text \<open>
  Start at 1, subtract 0.3 per occurrence of the id in the history, subtract 0.6 more
  when the id is the last entry, force 0 when the last two entries are both the id,
  and clamp at 0.
\<close>

definition specWeight :: "string list \<Rightarrow> string \<Rightarrow> real" where
  "specWeight history pid =
     (let repetition = 1 - 3 / 10 * real (count_list history pid);
          recent = (if history \<noteq> [] \<and> last history = pid then repetition - 6 / 10 else repetition);
          forced = (if length history \<ge> 2 \<and> last history = pid \<and> last (butlast history) = pid
                    then 0 else recent)
      in max 0 forced)"

text \<open>
  The weight before clamping as the code computes it, from the number of occurrences
  and whether the id is the last entry; and what it means for it to agree with the
  exact value of the formula: after clamping the two differ by at most \<open>2^-53\<close>, and
  one is 0 exactly when the other is.
\<close>

definition rawWeight :: "nat \<Rightarrow> bool \<Rightarrow> real" where
  "rawWeight c recent =
     (let w = dblSub 1 (dblMul (real c) (roundDouble (3 / 10)))
      in if recent then dblSub w (roundDouble (6 / 10)) else w)"

definition exactWeight :: "nat \<Rightarrow> bool \<Rightarrow> real" where
  "exactWeight c recent = (let w = 1 - 3 / 10 * real c in if recent then w - 6 / 10 else w)"

definition agrees :: "real \<Rightarrow> real \<Rightarrow> bool" where
  "agrees w x \<longleftrightarrow> \<bar>max 0 w - max 0 x\<bar> \<le> 1 / 2 ^ 53 \<and> ((max 0 w = 0) = (max 0 x = 0))"





text \<open>The \<open>n\<close> most recent entries of a sequence, in order.\<close>

definition mostRecent :: "nat \<Rightarrow> 'a list \<Rightarrow> 'a list" where
  "mostRecent n xs = drop (length xs - n) xs"

subsection \<open>Example boards\<close>

definition mkPiece :: "string \<Rightarrow> PieceType \<Rightarrow> int \<Rightarrow> Piece" where
  "mkPiece i t s = \<lparr>idP = i, typeP = t, color = WHITE, square = s, isVisible = True\<rparr>"

text \<open>A knight in the corner a8 and a pawn on b6: the knight's only empty target is c7.\<close>

definition cornerKnight :: "Piece list" where
  "cornerKnight = [mkPiece ''p-0'' KNIGHT 0, mkPiece ''p-1'' PAWN 17]"




text \<open>
  A knight on g2 and a bishop on h6. Both reach f4 and e3; the knight alone reaches h4
  and e1, the bishop alone g7, f8, g5, d2 and c1.
\<close>

definition knightBishop :: "Piece list" where
  "knightBishop = [mkPiece ''p-0'' KNIGHT 54, mkPiece ''p-1'' BISHOP 23]"


section \<open>Double arithmetic on concrete numbers\<close>

text \<open>
  The equations that evaluate a rounding of a concrete number, and three well-known
  facts of double arithmetic as a check of the rounding: \<open>0.1 + 0.2\<close> is
  0.30000000000000004, \<open>3 * 0.3\<close> is 0.8999999999999999, and \<open>2^53 + 1\<close> is not a double.
\<close>

lemmas dbl_eval =
  roundDouble_def binaryExponent_def roundHalfEven_def pow2_def dblMul_def dblAdd_def dblSub_def
  Let_def compute_bitlen

lemma double_sum_tenths:
  "dblAdd (roundDouble (1 / 10)) (roundDouble (2 / 10)) = 5404319552844596 / 2 ^ 54"
  "roundDouble (3 / 10) = 5404319552844595 / 2 ^ 54"
  by (simp_all add: dbl_eval)

lemma double_three_times_three_tenths:
  "dblMul 3 (roundDouble (3 / 10)) = 8106479329266892 / 2 ^ 53"
  by (simp add: dbl_eval)

lemma double_ties_to_even:
  "roundDouble (2 ^ 53 + 1) = 2 ^ 53" "roundDouble (2 ^ 53 + 3) = 2 ^ 53 + 4"
  by (simp_all add: dbl_eval)

section \<open>The sliding loop returns\<close>

lemma slideLoop_ray:
  "(dr, dc) \<noteq> (0, 0) \<Longrightarrow> (onBoard r c \<Longrightarrow> stepsLeft dr dc r c \<le> n) \<Longrightarrow>
   slideLoop blockers dr dc r c moves = Some (moves @ ray n blockers dr dc r c)"
proof (induction n arbitrary: r c moves)
  case 0
  then have "\<not> onBoard r c"
    by (auto simp: onBoard_def stepsLeft_def split: if_splits)
  then show ?case
    by (subst slideLoop.simps) (auto simp add: onBoard_def)
next
  case (Suc n)
  show ?case
  proof (cases "onBoard r c")
    case False
    then show ?thesis
      by (subst slideLoop.simps) (auto simp add: onBoard_def)
  next
    case True
    then have "stepsLeft dr dc r c \<le> Suc n" by (rule Suc.prems(2))
    with True Suc.prems(1) have "onBoard (r + dr) (c + dc) \<Longrightarrow> stepsLeft dr dc (r + dr) (c + dc) \<le> n"
      by (auto simp: onBoard_def stepsLeft_def split: if_splits)
    from Suc.IH [OF Suc.prems(1) this]
    have IH: "\<And>m. slideLoop blockers dr dc (r + dr) (c + dc) m = Some (m @ ray n blockers dr dc (r + dr) (c + dc))"
      by simp
    from True show ?thesis
      by (subst slideLoop.simps) (simp add: onBoard_def IH Let_def)
  qed
qed

lemma slideLoop_doc_ray:
  "(dr, dc) \<noteq> (0, 0) \<Longrightarrow> (onBoard r c \<Longrightarrow> stepsLeft dr dc r c \<le> n) \<Longrightarrow>
   slideLoop_doc blockers dr dc r c moves = Some (moves @ ray n blockers dr dc r c)"
proof (induction n arbitrary: r c moves)
  case 0
  then have "\<not> onBoard r c"
    by (auto simp: onBoard_def stepsLeft_def split: if_splits)
  then show ?case
    by (subst slideLoop_doc.simps) (auto simp add: onBoard_def)
next
  case (Suc n)
  show ?case
  proof (cases "onBoard r c")
    case False
    then show ?thesis
      by (subst slideLoop_doc.simps) (auto simp add: onBoard_def)
  next
    case True
    then have "stepsLeft dr dc r c \<le> Suc n" by (rule Suc.prems(2))
    with True Suc.prems(1) have "onBoard (r + dr) (c + dc) \<Longrightarrow> stepsLeft dr dc (r + dr) (c + dc) \<le> n"
      by (auto simp: onBoard_def stepsLeft_def split: if_splits)
    from Suc.IH [OF Suc.prems(1) this]
    have IH: "\<And>m. slideLoop_doc blockers dr dc (r + dr) (c + dc) m = Some (m @ ray n blockers dr dc (r + dr) (c + dc))"
      by simp
    from True show ?thesis
      by (subst slideLoop_doc.simps) (simp add: onBoard_def IH Let_def)
  qed
qed

lemma onBoard_stepsLeft: "onBoard r c \<Longrightarrow> stepsLeft dr dc r c \<le> 8"
  by (auto simp: onBoard_def stepsLeft_def)

lemma addSlidingMoves_rays:
  "(0, 0) \<notin> set directions \<Longrightarrow>
   addSlidingMoves row col blockers directions moves = Some (moves @ rays row col blockers directions)"
proof (induction directions arbitrary: moves)
  case Nil
  then show ?case by (simp add: rays_def)
next
  case (Cons d ds)
  obtain dr dc where d: "d = (dr, dc)" by (cases d)
  with Cons.prems have nz: "(dr, dc) \<noteq> (0, 0)" and rest: "(0, 0) \<notin> set ds" by auto
  have "slideLoop blockers dr dc (row + dr) (col + dc) moves =
        Some (moves @ ray 8 blockers dr dc (row + dr) (col + dc))"
    by (rule slideLoop_ray [OF nz]) (rule onBoard_stepsLeft)
  with Cons.IH [OF rest] d show ?case
    by (simp add: rays_def)
qed

lemma addSlidingMoves_doc_rays:
  "(0, 0) \<notin> set directions \<Longrightarrow>
   addSlidingMoves_doc row col blockers directions moves = Some (moves @ rays row col blockers directions)"
proof (induction directions arbitrary: moves)
  case Nil
  then show ?case by (simp add: rays_def)
next
  case (Cons d ds)
  obtain dr dc where d: "d = (dr, dc)" by (cases d)
  with Cons.prems have nz: "(dr, dc) \<noteq> (0, 0)" and rest: "(0, 0) \<notin> set ds" by auto
  have "slideLoop_doc blockers dr dc (row + dr) (col + dc) moves =
        Some (moves @ ray 8 blockers dr dc (row + dr) (col + dc))"
    by (rule slideLoop_doc_ray [OF nz]) (rule onBoard_stepsLeft)
  with Cons.IH [OF rest] d show ?case
    by (simp add: rays_def)
qed

lemma addOffsetMoves_doc_eq:
  "addOffsetMoves_doc row col offsets moves = addOffsetMoves row col offsets moves"
  by (induction row col offsets moves rule: addOffsetMoves.induct)
     (simp_all add: addIfOnBoard_def addIfOnBoard_doc_def)

lemma no_zero_direction:
  "(0, 0) \<notin> set rookDirections" "(0, 0) \<notin> set bishopDirections" "(0, 0) \<notin> set queenDirections"
  by (simp_all add: rookDirections_def bishopDirections_def queenDirections_def)

lemma getLegalMoves_legalMoves: "getLegalMoves sq t blockers = Some (legalMoves sq t blockers)"
  by (cases t)
     (simp_all add: getLegalMoves_def legalMoves_def Let_def addSlidingMoves_rays no_zero_direction)

lemma getLegalMoves_doc_legalMoves: "getLegalMoves_doc sq t blockers = Some (legalMoves sq t blockers)"
proof (cases t)
  case QUEEN
  then show ?thesis
    unfolding getLegalMoves_doc_def legalMoves_def Let_def queenDirections_def [symmetric]
    by (simp add: addSlidingMoves_doc_rays no_zero_direction)
next
  case ROOK
  then show ?thesis
    unfolding getLegalMoves_doc_def legalMoves_def Let_def rookDirections_def [symmetric]
    by (simp add: addSlidingMoves_doc_rays no_zero_direction)
next
  case BISHOP
  then show ?thesis
    unfolding getLegalMoves_doc_def legalMoves_def Let_def bishopDirections_def [symmetric]
    by (simp add: addSlidingMoves_doc_rays no_zero_direction)
next
  case KNIGHT
  then show ?thesis
    by (simp add: getLegalMoves_doc_def legalMoves_def Let_def addOffsetMoves_doc_eq knightOffsets_def)
next
  case KING
  then show ?thesis
    by (simp add: getLegalMoves_doc_def legalMoves_def Let_def addOffsetMoves_doc_eq kingOffsets_def)
next
  case PAWN
  then show ?thesis
    by (simp add: getLegalMoves_doc_def legalMoves_def)
qed

section \<open>What the move generator returns\<close>

lemma set_setInsert: "set (setInsert seen xs) = set seen \<union> set xs"
  by (induction xs arbitrary: seen) auto

lemma distinct_setInsert: "distinct seen \<Longrightarrow> distinct (setInsert seen xs)"
  by (induction xs arbitrary: seen) (auto simp: set_setInsert)

lemma set_spreadSet: "set (spreadSet xs) = set xs"
  by (simp add: spreadSet_def set_setInsert)

lemma distinct_spreadSet: "distinct (spreadSet xs)"
  by (simp add: spreadSet_def distinct_setInsert)

lemma set_addOffsetMoves:
  "set (addOffsetMoves row col offsets moves) =
   set moves \<union> {(row + dr) * 8 + (col + dc) | dr dc. (dr, dc) \<in> set offsets \<and> onBoard (row + dr) (col + dc)}"
  by (induction row col offsets moves rule: addOffsetMoves.induct)
     (auto simp: addIfOnBoard_def onBoard_def split: option.splits if_splits)

lemma set_ray:
  "s \<in> set (ray n blockers dr dc r c) \<longleftrightarrow>
   (\<exists>k<n. s = (r + int k * dr) * 8 + (c + int k * dc) \<and>
      (\<forall>j<Suc k. onBoard (r + int j * dr) (c + int j * dc)) \<and>
      (\<forall>j<k. (r + int j * dr) * 8 + (c + int j * dc) \<notin> set blockers))"
proof (induction n arbitrary: r c)
  case 0
  then show ?case by simp
next
  case (Suc n)
  have shift: "\<And>j. r + dr + int j * dr = r + int (Suc j) * dr" "\<And>j. c + dc + int j * dc = c + int (Suc j) * dc"
    by (simp_all add: algebra_simps)
  show ?case
    apply (subst Ex_less_Suc2)
    apply (subst (2) All_less_Suc2)
    apply (subst (3) All_less_Suc2)
    apply (simp add: Suc.IH shift del: of_nat_Suc)
    apply (auto simp del: of_nat_Suc)
    done
qed

lemma set_rays:
  "s \<in> set (rays row col blockers directions) \<longleftrightarrow>
   (\<exists>(dr, dc) \<in> set directions. s \<in> set (ray 8 blockers dr dc (row + dr) (col + dc)))"
  by (auto simp: rays_def)

lemma set_ray_from:
  "s \<in> set (ray n blockers dr dc (row + dr) (col + dc)) \<longleftrightarrow>
   (\<exists>k. 1 \<le> k \<and> k \<le> n \<and> s = (row + int k * dr) * 8 + (col + int k * dc) \<and>
      (\<forall>j. 1 \<le> j \<and> j \<le> k \<longrightarrow> onBoard (row + int j * dr) (col + int j * dc)) \<and>
      (\<forall>j. 1 \<le> j \<and> j < k \<longrightarrow> (row + int j * dr) * 8 + (col + int j * dc) \<notin> set blockers))"
  (is "?L \<longleftrightarrow> ?R")
proof
  have shift: "\<And>j. row + dr + int j * dr = row + int (Suc j) * dr"
    "\<And>j. col + dc + int j * dc = col + int (Suc j) * dc"
    by (simp_all add: algebra_simps)
  {
    assume ?L
    then obtain k where k: "k < n"
      and s: "s = (row + int (Suc k) * dr) * 8 + (col + int (Suc k) * dc)"
      and ob: "\<forall>j<Suc k. onBoard (row + int (Suc j) * dr) (col + int (Suc j) * dc)"
      and nb: "\<forall>j<k. (row + int (Suc j) * dr) * 8 + (col + int (Suc j) * dc) \<notin> set blockers"
      unfolding set_ray shift by blast
    have "\<forall>j. 1 \<le> j \<and> j \<le> Suc k \<longrightarrow> onBoard (row + int j * dr) (col + int j * dc)"
    proof (intro allI impI)
      fix j assume "1 \<le> j \<and> j \<le> Suc k"
      then obtain j' where "j = Suc j'" "j' < Suc k" by (cases j) auto
      with ob show "onBoard (row + int j * dr) (col + int j * dc)" by blast
    qed
    moreover have "\<forall>j. 1 \<le> j \<and> j < Suc k \<longrightarrow> (row + int j * dr) * 8 + (col + int j * dc) \<notin> set blockers"
    proof (intro allI impI)
      fix j assume "1 \<le> j \<and> j < Suc k"
      then obtain j' where "j = Suc j'" "j' < k" by (cases j) auto
      with nb show "(row + int j * dr) * 8 + (col + int j * dc) \<notin> set blockers" by blast
    qed
    ultimately show ?R using k s by (intro exI [of _ "Suc k"]) simp
  }
  {
    assume ?R
    then obtain k where k: "1 \<le> k" "k \<le> n"
      and s: "s = (row + int k * dr) * 8 + (col + int k * dc)"
      and ob: "\<forall>j. 1 \<le> j \<and> j \<le> k \<longrightarrow> onBoard (row + int j * dr) (col + int j * dc)"
      and nb: "\<forall>j. 1 \<le> j \<and> j < k \<longrightarrow> (row + int j * dr) * 8 + (col + int j * dc) \<notin> set blockers"
      by blast
    from k obtain k' where k': "k = Suc k'" "k' < n" by (cases k) auto
    have "\<forall>j<Suc k'. onBoard (row + int (Suc j) * dr) (col + int (Suc j) * dc)"
    proof (intro allI impI)
      fix j assume "j < Suc k'"
      then have "1 \<le> Suc j \<and> Suc j \<le> k" using k' by simp
      with ob show "onBoard (row + int (Suc j) * dr) (col + int (Suc j) * dc)" by blast
    qed
    moreover have "\<forall>j<k'. (row + int (Suc j) * dr) * 8 + (col + int (Suc j) * dc) \<notin> set blockers"
    proof (intro allI impI)
      fix j assume "j < k'"
      then have "1 \<le> Suc j \<and> Suc j < k" using k' by simp
      with nb show "(row + int (Suc j) * dr) * 8 + (col + int (Suc j) * dc) \<notin> set blockers" by blast
    qed
    ultimately show ?L
      unfolding set_ray shift using k' s by blast
  }
qed

lemma js_rem_nonneg: "0 \<le> a \<Longrightarrow> js_rem a 8 = a mod 8"
  by (cases "a = 0") (simp_all add: js_rem_def signed_modulo_int_def)

lemma square_coords:
  assumes "0 \<le> sq" "sq \<le> 63"
  shows "onBoard (sq div 8) (js_rem sq 8)" and "(sq div 8) * 8 + js_rem sq 8 = sq"
  using assms by (auto simp: js_rem_nonneg onBoard_def)

lemma board_index_inj:
  assumes "onBoard r c" "onBoard r' c'" "r * 8 + c = r' * 8 + c'"
  shows "r = r' \<and> c = c'"
proof -
  from assms(3) have eq: "8 * (r - r') = c' - c" by (simp add: algebra_simps)
  from assms(1,2) have "- 8 < c' - c" "c' - c < 8" by (simp_all add: onBoard_def)
  with eq have "r = r'" by presburger
  with assms(3) show ?thesis by simp
qed

lemma onBoard_range: "onBoard r c \<Longrightarrow> 0 \<le> r * 8 + c \<and> r * 8 + c \<le> 63"
  by (auto simp: onBoard_def)

lemma sliding_direction_cases:
  "(dr, dc) \<in> set (slidingDirections t) \<Longrightarrow>
   (dr = -1 \<or> dr = 0 \<or> dr = 1) \<and> (dc = -1 \<or> dc = 0 \<or> dc = 1) \<and> (dr, dc) \<noteq> (0, 0)"
  by (cases t)
     (auto simp: slidingDirections_def rookDirections_def bishopDirections_def queenDirections_def)

lemma offset_nonzero:
  "(dr, dc) \<in> set knightOffsets \<Longrightarrow> (dr, dc) \<noteq> (0, 0)"
  "(dr, dc) \<in> set kingOffsets \<Longrightarrow> (dr, dc) \<noteq> (0, 0)"
  by (auto simp: knightOffsets_def kingOffsets_def)

lemma legalMoves_sliding:
  "slidingDirections t \<noteq> [] \<Longrightarrow>
   set (legalMoves sq t blockers) =
   set (rays (sq div 8) (js_rem sq 8) blockers (slidingDirections t))"
  by (cases t) (simp_all add: legalMoves_def slidingDirections_def set_spreadSet)

lemma legalMoves_offset:
  "m \<in> set (legalMoves sq t blockers) \<Longrightarrow>
   \<exists>a b. (a, b) \<noteq> (0, 0) \<and> onBoard (sq div 8 + a) (js_rem sq 8 + b)
      \<and> m = (sq div 8 + a) * 8 + (js_rem sq 8 + b)"
proof (cases "t = KNIGHT \<or> t = KING \<or> t = PAWN")
  case True
  assume m: "m \<in> set (legalMoves sq t blockers)"
  from True consider "t = KNIGHT" | "t = KING" | "t = PAWN" by blast
  then show ?thesis
  proof cases
    case 1
    with m have "m \<in> {(sq div 8 + dr) * 8 + (js_rem sq 8 + dc) | dr dc.
        (dr, dc) \<in> set knightOffsets \<and> onBoard (sq div 8 + dr) (js_rem sq 8 + dc)}"
      by (simp add: legalMoves_def set_spreadSet set_addOffsetMoves)
    then show ?thesis using offset_nonzero(1) by blast
  next
    case 2
    with m have "m \<in> {(sq div 8 + dr) * 8 + (js_rem sq 8 + dc) | dr dc.
        (dr, dc) \<in> set kingOffsets \<and> onBoard (sq div 8 + dr) (js_rem sq 8 + dc)}"
      by (simp add: legalMoves_def set_spreadSet set_addOffsetMoves)
    then show ?thesis using offset_nonzero(2) by blast
  next
    case 3
    with m show ?thesis by (simp add: legalMoves_def spreadSet_def)
  qed
next
  case False
  assume m: "m \<in> set (legalMoves sq t blockers)"
  from False have ne: "slidingDirections t \<noteq> []"
    by (cases t) (simp_all add: slidingDirections_def rookDirections_def bishopDirections_def queenDirections_def)
  from m obtain dr dc where d: "(dr, dc) \<in> set (slidingDirections t)"
    and r: "m \<in> set (ray 8 blockers dr dc (sq div 8 + dr) (js_rem sq 8 + dc))"
    unfolding legalMoves_sliding [OF ne] set_rays by blast
  from r obtain k where k: "1 \<le> k"
    and mk: "m = (sq div 8 + int k * dr) * 8 + (js_rem sq 8 + int k * dc)"
    and ob: "\<forall>j. 1 \<le> j \<and> j \<le> k \<longrightarrow> onBoard (sq div 8 + int j * dr) (js_rem sq 8 + int j * dc)"
    unfolding set_ray_from by blast
  from ob k have "onBoard (sq div 8 + int k * dr) (js_rem sq 8 + int k * dc)" by blast
  moreover from sliding_direction_cases [OF d] k have "(int k * dr, int k * dc) \<noteq> (0, 0)" by auto
  ultimately show ?thesis using mk by blast
qed

lemma legalMoves_range: "m \<in> set (legalMoves sq t blockers) \<Longrightarrow> 0 \<le> m \<and> m \<le> 63"
  using legalMoves_offset [of m sq t blockers] onBoard_range by blast

lemma distinct_legalMoves: "distinct (legalMoves sq t blockers)"
  by (simp add: legalMoves_def Let_def distinct_spreadSet)

text \<open>
  C8. For every square in [0,63], every piece kind and every blockers list,
  \<open>getLegalMoves\<close> returns a list; every square in it differs from the input square
  and lies within [0,63], and the list has no duplicates.
\<close>

theorem getLegalMoves_safe:
  assumes "0 \<le> sq" "sq \<le> 63"
  shows "\<exists>moves. getLegalMoves sq t blockers = Some moves
           \<and> (\<forall>m \<in> set moves. m \<noteq> sq \<and> 0 \<le> m \<and> m \<le> 63) \<and> distinct moves"
proof -
  have "m \<noteq> sq" if "m \<in> set (legalMoves sq t blockers)" for m
  proof -
    from legalMoves_offset [OF that] obtain a b where nz: "(a, b) \<noteq> (0, 0)"
      and ob: "onBoard (sq div 8 + a) (js_rem sq 8 + b)"
      and m: "m = (sq div 8 + a) * 8 + (js_rem sq 8 + b)" by blast
    show ?thesis
    proof
      assume "m = sq"
      with m square_coords(2) [OF assms]
      have "(sq div 8 + a) * 8 + (js_rem sq 8 + b) = (sq div 8) * 8 + js_rem sq 8" by simp
      from board_index_inj [OF ob square_coords(1) [OF assms] this] nz show False by simp
    qed
  qed
  then show ?thesis
    using legalMoves_range distinct_legalMoves by (auto simp: getLegalMoves_legalMoves)
qed

theorem getLegalMoves_safe_witness:
  "(0::int) \<le> 27 \<and> (27::int) \<le> 63 \<and>
   (\<exists>moves. getLegalMoves 27 QUEEN [3, 28] = Some moves
      \<and> (\<forall>m \<in> set moves. m \<noteq> 27 \<and> 0 \<le> m \<and> m \<le> 63) \<and> distinct moves)"
  using getLegalMoves_safe [of 27 QUEEN "[3, 28]"] by simp


lemma step_unique:
  assumes "(dr = -1 \<or> dr = 0 \<or> dr = 1) \<and> (dc = -1 \<or> dc = 0 \<or> dc = 1) \<and> (dr, dc) \<noteq> (0, 0)"
    and "(dr' = -1 \<or> dr' = 0 \<or> dr' = 1) \<and> (dc' = -1 \<or> dc' = 0 \<or> dc' = 1) \<and> (dr', dc') \<noteq> (0, 0)"
    and "1 \<le> k" "1 \<le> k'"
    and "int k * dr = int k' * dr'" "int k * dc = int k' * dc'"
  shows "dr = dr' \<and> dc = dc' \<and> k = k'"
  using assms by auto

lemma steps_between:
  assumes "onBoard row col" "onBoard (row + int k * dr) (col + int k * dc)"
    and "(dr = -1 \<or> dr = 0 \<or> dr = 1) \<and> (dc = -1 \<or> dc = 0 \<or> dc = 1) \<and> (dr, dc) \<noteq> (0, 0)"
    and "j \<le> k"
  shows "onBoard (row + int j * dr) (col + int j * dc)" and "k \<le> 8"
  using assms unfolding onBoard_def by auto

lemma sliding_code_directions:
  assumes "0 \<le> sq" "sq \<le> 63"
    and "(dr, dc) \<in> set (slidingDirections t)"
    and "1 \<le> k" "stepOnBoard sq dr dc k"
  shows "\<exists>moves. getLegalMoves sq t blockers = Some moves \<and>
           (stepSquare sq dr dc k \<in> set moves \<longleftrightarrow>
            (\<forall>j. 1 \<le> j \<and> j < k \<longrightarrow> stepSquare sq dr dc j \<notin> set blockers))"
proof -
  let ?row = "sq div 8" and ?col = "js_rem sq 8"
  have org: "onBoard ?row ?col" by (rule square_coords(1) [OF assms(1,2)])
  have dir: "(dr = -1 \<or> dr = 0 \<or> dr = 1) \<and> (dc = -1 \<or> dc = 0 \<or> dc = 1) \<and> (dr, dc) \<noteq> (0, 0)"
    by (rule sliding_direction_cases [OF assms(3)])
  from assms(5) have tgt: "onBoard (?row + int k * dr) (?col + int k * dc)"
    by (simp add: stepOnBoard_def)
  from assms(3) have ne: "slidingDirections t \<noteq> []" by auto
  have mem: "s \<in> set (legalMoves sq t blockers) \<longleftrightarrow>
      (\<exists>(a, b) \<in> set (slidingDirections t). s \<in> set (ray 8 blockers a b (?row + a) (?col + b)))" for s
    unfolding legalMoves_sliding [OF ne] set_rays ..
  have "stepSquare sq dr dc k \<in> set (legalMoves sq t blockers) \<longleftrightarrow>
        (\<forall>j. 1 \<le> j \<and> j < k \<longrightarrow> stepSquare sq dr dc j \<notin> set blockers)" (is "?L \<longleftrightarrow> ?R")
  proof
    assume ?R
    have "\<forall>j. 1 \<le> j \<and> j \<le> k \<longrightarrow> onBoard (?row + int j * dr) (?col + int j * dc)"
      using steps_between(1) [OF org tgt dir] by blast
    moreover have "k \<le> 8" by (rule steps_between(2) [OF org tgt dir order_refl])
    ultimately have "stepSquare sq dr dc k \<in> set (ray 8 blockers dr dc (?row + dr) (?col + dc))"
      unfolding set_ray_from using \<open>?R\<close> assms(4) by (auto simp: stepSquare_def)
    with assms(3) show ?L unfolding mem by blast
  next
    assume ?L
    then obtain a b where ab: "(a, b) \<in> set (slidingDirections t)"
      and r: "stepSquare sq dr dc k \<in> set (ray 8 blockers a b (?row + a) (?col + b))"
      unfolding mem by blast
    from r obtain k' where k': "1 \<le> k'"
      and eq: "stepSquare sq dr dc k = (?row + int k' * a) * 8 + (?col + int k' * b)"
      and ob: "\<forall>j. 1 \<le> j \<and> j \<le> k' \<longrightarrow> onBoard (?row + int j * a) (?col + int j * b)"
      and nb: "\<forall>j. 1 \<le> j \<and> j < k' \<longrightarrow> (?row + int j * a) * 8 + (?col + int j * b) \<notin> set blockers"
      unfolding set_ray_from by blast
    from ob k' have tgt': "onBoard (?row + int k' * a) (?col + int k' * b)" by blast
    from eq have "(?row + int k * dr) * 8 + (?col + int k * dc) = (?row + int k' * a) * 8 + (?col + int k' * b)"
      by (simp add: stepSquare_def)
    from board_index_inj [OF tgt tgt' this]
    have "int k * dr = int k' * a" "int k * dc = int k' * b" by simp_all
    from step_unique [OF dir sliding_direction_cases [OF ab] assms(4) k' this]
    have "dr = a" "dc = b" "k = k'" by simp_all
    with nb show ?R by (simp add: stepSquare_def)
  qed
  then show ?thesis by (simp add: getLegalMoves_legalMoves)
qed

lemma specDirection_code: "specDirection t (dr, dc) \<longleftrightarrow> (dr, dc) \<in> set (slidingDirections t)"
proof -
  have abs1: "\<bar>x\<bar> = 1 \<longleftrightarrow> x = - 1 \<or> x = 1" for x :: int by auto
  show ?thesis
    by (cases t)
       (auto simp: specDirection_def orthogonal_def diagonal_def abs1 slidingDirections_def
          rookDirections_def bishopDirections_def queenDirections_def)
qed

text \<open>
  C2. For every square in [0,63], every sliding kind and every direction of that kind's
  direction set (rook: the 4 orthogonal directions, bishop: the 4 diagonal ones, queen:
  both): an on-board square \<open>k\<close> steps away in that direction is in the list
  \<open>getLegalMoves\<close> returns exactly when no square strictly before it in that direction
  is a blocker. So every square up to and including the first blocker is included, and
  no square beyond the first blocker is.
\<close>

theorem sliding_stops_at_first_blocker:
  assumes "0 \<le> sq" "sq \<le> 63"
    and "specDirection t (dr, dc)"
    and "1 \<le> k" "stepOnBoard sq dr dc k"
  shows "\<exists>moves. getLegalMoves sq t blockers = Some moves \<and>
           (stepSquare sq dr dc k \<in> set moves \<longleftrightarrow>
            (\<forall>j. 1 \<le> j \<and> j < k \<longrightarrow> stepSquare sq dr dc j \<notin> set blockers))"
proof -
  from assms(3) have "(dr, dc) \<in> set (slidingDirections t)" by (simp only: specDirection_code)
  from sliding_code_directions [OF assms(1,2) this assms(4,5)] show ?thesis .
qed

text \<open>
  A rook on d5 with blockers on d8 and e5: one step to the right is the blocker e5,
  which is in the list; two steps to the right is f5, beyond the blocker, which is not.
\<close>

theorem sliding_stops_at_first_blocker_witness:
  "(0::int) \<le> 27 \<and> (27::int) \<le> 63 \<and> specDirection ROOK (0, 1)
   \<and> stepOnBoard 27 0 1 1 \<and> stepSquare 27 0 1 1 = 28
   \<and> stepOnBoard 27 0 1 2 \<and> stepSquare 27 0 1 2 = 29
   \<and> (\<exists>moves. getLegalMoves 27 ROOK [3, 28] = Some moves \<and> 28 \<in> set moves \<and> 29 \<notin> set moves)"
proof -
  have h: "specDirection ROOK (0, 1)"
    by (simp add: specDirection_def orthogonal_def)
  have b1: "stepOnBoard 27 0 1 1" and b2: "stepOnBoard 27 0 1 2"
    by (simp_all add: stepOnBoard_def onBoard_def js_rem_nonneg)
  have s1: "stepSquare 27 0 1 1 = 28" and s2: "stepSquare 27 0 1 2 = 29"
    by (simp_all add: stepSquare_def js_rem_nonneg)
  obtain moves where m: "getLegalMoves 27 ROOK [3, 28] = Some moves"
    by (simp add: getLegalMoves_legalMoves)
  from sliding_stops_at_first_blocker [of 27 ROOK 0 1 1 "[3, 28]", OF _ _ h _ b1] m
  have in1: "28 \<in> set moves" by (simp add: s1 del: One_nat_def)
  have "\<not> (\<forall>j. 1 \<le> j \<and> j < 2 \<longrightarrow> stepSquare 27 0 1 j \<notin> set [3, 28])"
    using s1 by (auto intro: exI [of _ "1::nat"])
  with sliding_stops_at_first_blocker [of 27 ROOK 0 1 2 "[3, 28]", OF _ _ h _ b2] m
  have out2: "29 \<notin> set moves" by (simp add: s2 del: One_nat_def)
  from h b1 b2 s1 s2 m in1 out2 show ?thesis by simp
qed

text \<open>
  C10. The two \<open>getLegalMoves\<close> of the source, the one beside \<open>generateTargetSquare\<close>
  and the standalone documented one, return the same list of destination squares for
  every square, piece kind and blockers list.
\<close>

theorem getLegalMoves_copies_agree:
  "getLegalMoves_doc sq t blockers = getLegalMoves sq t blockers"
  by (simp add: getLegalMoves_doc_legalMoves getLegalMoves_legalMoves)

section \<open>History update\<close>

lemma updateHistory_mostRecent:
  "length h \<le> 5 \<Longrightarrow> updateHistory h i = mostRecent 5 (h @ [i])"
proof (cases "length h = 5")
  case True
  then have "h \<noteq> []" by auto
  with True show ?thesis
    by (simp add: updateHistory_def mostRecent_def drop_Suc)
next
  case False
  assume "length h \<le> 5"
  with False show ?thesis
    by (simp add: updateHistory_def mostRecent_def)
qed

lemma mostRecent_snoc:
  "mostRecent n (mostRecent n xs @ [x]) = mostRecent n (xs @ [x])"
proof (cases "length xs \<le> n")
  case True
  then show ?thesis by (simp add: mostRecent_def)
next
  case False
  then have "Suc (length xs) - n = Suc (length xs - n)" by simp
  with False show ?thesis by (simp add: mostRecent_def)
qed

lemma length_mostRecent: "length (mostRecent n xs) = min n (length xs)"
  by (simp add: mostRecent_def)

lemma foldl_updateHistory:
  "length h \<le> 5 \<Longrightarrow> foldl updateHistory h ids = mostRecent 5 (h @ ids)"
proof (induction ids rule: rev_induct)
  case Nil
  then show ?case by (simp add: mostRecent_def)
next
  case (snoc x xs)
  then have "foldl updateHistory h (xs @ [x]) = updateHistory (mostRecent 5 (h @ xs)) x" by simp
  also have "\<dots> = mostRecent 5 (mostRecent 5 (h @ xs) @ [x])"
    by (rule updateHistory_mostRecent) (simp add: length_mostRecent)
  also have "\<dots> = mostRecent 5 ((h @ xs) @ [x])" by (rule mostRecent_snoc)
  finally show ?case by simp
qed

text \<open>
  C9. For every history of at most 5 entries and every moved piece id, the update made
  after an accepted move (append the id, drop the oldest entry when the length exceeds
  5) yields a history of at most 5 entries that holds the most recent ids in order; and
  after any sequence of 6 or more moves the history is exactly the 5 most recent ids,
  in order.
\<close>

theorem history_keeps_five_most_recent:
  assumes "length h \<le> 5"
  shows "length (updateHistory h i) \<le> 5
       \<and> updateHistory h i = mostRecent 5 (h @ [i])
       \<and> (6 \<le> length ids \<longrightarrow>
            foldl updateHistory h ids = mostRecent 5 ids
            \<and> length (foldl updateHistory h ids) = 5)"
proof -
  have "foldl updateHistory h ids = mostRecent 5 ids" if "6 \<le> length ids"
    using that foldl_updateHistory [OF assms, of ids] by (simp add: mostRecent_def)
  then show ?thesis
    using assms by (simp add: updateHistory_mostRecent length_mostRecent)
qed

theorem history_keeps_five_most_recent_witness:
  "length [''p-0'', ''p-1''] \<le> 5
   \<and> length (updateHistory [''p-0'', ''p-1''] ''p-2'') \<le> 5
   \<and> updateHistory [''p-0'', ''p-1''] ''p-2'' = mostRecent 5 ([''p-0'', ''p-1''] @ [''p-2''])
   \<and> 6 \<le> length [''p-0'', ''p-1'', ''p-0'', ''p-2'', ''p-1'', ''p-0'', ''p-2'']
   \<and> foldl updateHistory [''p-0'', ''p-1''] [''p-0'', ''p-1'', ''p-0'', ''p-2'', ''p-1'', ''p-0'', ''p-2'']
       = [''p-0'', ''p-2'', ''p-1'', ''p-0'', ''p-2'']"
  using history_keeps_five_most_recent
    [of "[''p-0'', ''p-1'']" "''p-2''" "[''p-0'', ''p-1'', ''p-0'', ''p-2'', ''p-1'', ''p-0'', ''p-2'']"]
  by (simp add: mostRecent_def)

section \<open>Weights\<close>

lemma last_two_entries:
  assumes "2 \<le> length history"
  shows "history ! (length history - 1) = last history"
    and "history ! (length history - 2) = last (butlast history)"
proof -
  from assms have ne: "history \<noteq> []" "butlast history \<noteq> []" by (cases history; auto)+
  show "history ! (length history - 1) = last history"
    using ne by (simp add: last_conv_nth)
  have "last (butlast history) = butlast history ! (length (butlast history) - 1)"
    using ne by (simp add: last_conv_nth)
  also have "\<dots> = history ! (length history - 2)"
    using assms by (simp add: nth_butlast numeral_2_eq_2)
  finally show "history ! (length history - 2) = last (butlast history)" by simp
qed

lemma pieceWeight_raw:
  "pieceWeight history pid =
   (if 2 \<le> length history \<and> last history = pid \<and> last (butlast history) = pid then 0
    else max 0 (rawWeight (count_list history pid) (history \<noteq> [] \<and> last history = pid)))"
proof -
  have c: "length (filter (\<lambda>i. i = pid) history) = count_list history pid"
    by (induction history) auto
  have A: "(length history > 0 \<and> history ! (length history - 1) = pid)
        = (history \<noteq> [] \<and> last history = pid)"
    by (auto simp: last_conv_nth)
  have B: "(length history \<ge> 2 \<and> history ! (length history - 1) = pid
            \<and> history ! (length history - 2) = pid)
        = (length history \<ge> 2 \<and> last history = pid \<and> last (butlast history) = pid)"
    using last_two_entries [of history] by auto
  show ?thesis
    unfolding pieceWeight_def rawWeight_def Let_def c A B by simp
qed

lemma specWeight_exact:
  "specWeight history pid =
   (if 2 \<le> length history \<and> last history = pid \<and> last (butlast history) = pid then 0
    else max 0 (exactWeight (count_list history pid) (history \<noteq> [] \<and> last history = pid)))"
  unfolding specWeight_def exactWeight_def Let_def by simp

text \<open>The six counts a history of at most 5 entries allows, each with and without the 0.6.\<close>

lemma weight_table:
  "agrees (rawWeight 0 recent) (exactWeight 0 recent)"
  "agrees (rawWeight 1 recent) (exactWeight 1 recent)"
  "agrees (rawWeight 2 recent) (exactWeight 2 recent)"
  "agrees (rawWeight 3 recent) (exactWeight 3 recent)"
  "agrees (rawWeight 4 recent) (exactWeight 4 recent)"
  "agrees (rawWeight 5 recent) (exactWeight 5 recent)"
  by (cases recent; simp add: agrees_def rawWeight_def exactWeight_def dbl_eval)+

lemma rawWeight_agrees:
  assumes "c \<le> 5"
  shows "agrees (rawWeight c recent) (exactWeight c recent)"
proof -
  from assms consider "c = 0" | "c = 1" | "c = 2" | "c = 3" | "c = 4" | "c = 5" by arith
  then show ?thesis
    by cases (simp_all only: weight_table)
qed

lemma pieceWeight_agrees:
  assumes "length history \<le> 5"
  shows "\<bar>pieceWeight history pid - specWeight history pid\<bar> \<le> 1 / 2 ^ 53"
    and "pieceWeight history pid = 0 \<longleftrightarrow> specWeight history pid = 0"
proof -
  have "count_list history pid \<le> length history" by (rule count_le_length)
  with assms have "count_list history pid \<le> 5" by simp
  from rawWeight_agrees [OF this, of "history \<noteq> [] \<and> last history = pid"]
  show "\<bar>pieceWeight history pid - specWeight history pid\<bar> \<le> 1 / 2 ^ 53"
    and "pieceWeight history pid = 0 \<longleftrightarrow> specWeight history pid = 0"
    unfolding pieceWeight_raw specWeight_exact agrees_def by simp_all
qed

lemma map_of_mapSet: "map_of (mapSet m k v) = (map_of m)(k \<mapsto> v)"
  by (simp add: mapSet_def update_conv')

lemma map_of_weightLoop:
  "map_of (weightLoop history ps m) i =
   (if i \<in> idP ` set ps then Some (pieceWeight history i) else map_of m i)"
  by (induction ps arbitrary: m) (auto simp: map_of_mapSet)

text \<open>
  C5, as amended. For every piece of the list and every history of at most 5 entries,
  the weight the selector stores for the piece's id is the formula (1, minus 0.3 for
  each occurrence of the id, minus 0.6 more if the id is the last entry, forced to 0 if
  the last two entries are both the id, clamped at 0 from below) as double arithmetic
  computes it: it differs from the exact value of the formula by at most \<open>2^-53\<close>, and
  it is 0 exactly when the exact value is 0.
\<close>

theorem selector_weight_rounded:
  assumes "p \<in> set pieces" "length history \<le> 5"
  shows "\<exists>w. map_of (weightLoop history pieces []) (idP p) = Some w
          \<and> \<bar>w - specWeight history (idP p)\<bar> \<le> 1 / 2 ^ 53
          \<and> (w = 0 \<longleftrightarrow> specWeight history (idP p) = 0)"
  using assms(1) pieceWeight_agrees [OF assms(2), of "idP p"]
  by (simp add: map_of_weightLoop)

lemma weights_knightBishop:
  "weightLoop [''p-0''] knightBishop [] = [(''p-0'', 900719925474099 / 9007199254740992), (''p-1'', 1)]"
  by (simp add: knightBishop_def mkPiece_def mapSet_def pieceWeight_raw rawWeight_def dbl_eval)

lemma knightBishop_weight:
  "map_of (weightLoop [''p-0''] knightBishop []) ''p-0'' = Some (900719925474099 / 9007199254740992)"
  by (simp add: weights_knightBishop)

lemma knightBishop_specWeight: "specWeight [''p-0''] ''p-0'' = 1 / 10"
  by (simp add: specWeight_def)

theorem selector_weight_rounded_witness:
  "mkPiece ''p-0'' KNIGHT 54 \<in> set knightBishop \<and> length [''p-0''] \<le> 5
   \<and> map_of (weightLoop [''p-0''] knightBishop []) ''p-0'' = Some (900719925474099 / 9007199254740992)
   \<and> specWeight [''p-0''] ''p-0'' = 1 / 10
   \<and> \<bar>900719925474099 / 9007199254740992 - 1 / 10 :: real\<bar> \<le> 1 / 2 ^ 53"
proof -
  have h: "mkPiece ''p-0'' KNIGHT 54 \<in> set knightBishop" by (simp add: knightBishop_def)
  have i: "idP (mkPiece ''p-0'' KNIGHT 54) = ''p-0''" by (simp add: mkPiece_def)
  from selector_weight_rounded [OF h, of "[''p-0'']"]
  have "\<bar>900719925474099 / 9007199254740992 - 1 / 10 :: real\<bar> \<le> 1 / 2 ^ 53"
    unfolding i knightBishop_weight knightBishop_specWeight by simp
  with h knightBishop_weight knightBishop_specWeight show ?thesis by simp
qed

text \<open>
  C5 as stated fails: the equality is not exact. After the knight \<open>p-0\<close> has moved once,
  the formula gives 1 - 0.3 - 0.6 = 1/10 for it, and the selector stores
  0.09999999999999998, which is neither 1/10 nor the double nearest to 1/10.
\<close>

theorem weight_not_exact_counterexample:
  "map_of (weightLoop [''p-0''] knightBishop []) ''p-0'' = Some (900719925474099 / 9007199254740992)
   \<and> specWeight [''p-0''] ''p-0'' = 1 / 10
   \<and> (900719925474099 / 9007199254740992 :: real) \<noteq> 1 / 10
   \<and> (900719925474099 / 9007199254740992 :: real) \<noteq> roundDouble (1 / 10)"
proof -
  have "roundDouble (1 / 10) = 3602879701896397 / 36028797018963968" by (simp add: dbl_eval)
  with knightBishop_weight knightBishop_specWeight show ?thesis by simp
qed

section \<open>The weighted draw\<close>





lemma weightedPool_Nil:
  "weightedPoolOf uniqueTargets reacher pieceWeights = [] \<longleftrightarrow> uniqueTargets = []"
  by (simp add: weightedPoolOf_def)

lemma weightedWalk_mem: "weightedWalk pool r = Some s \<Longrightarrow> s \<in> fst ` set pool"
  by (induction pool r rule: weightedWalk.induct) (auto split: if_splits)

lemma weightedDraw_Returned:
  "pool \<noteq> [] \<Longrightarrow> \<exists>s \<in> fst ` set pool. weightedDraw pool r = Returned s"
proof (cases "weightedWalk pool r")
  case None
  assume "pool \<noteq> []"
  with None show ?thesis by (cases pool) (auto simp: weightedDraw_def)
next
  case (Some s)
  with weightedWalk_mem [OF Some] show ?thesis by (auto simp: weightedDraw_def)
qed

lemma keys_weightedPool: "fst ` set (weightedPoolOf uniqueTargets reacher pieceWeights) = set uniqueTargets"
  by (force simp: weightedPoolOf_def)

lemma generateTargetSquare_weighted:
  assumes "reachability pieces = Some st"
    and "uniqueTargetsOf (squareReachCounts st) \<noteq> []"
    and "pool = weightedPoolOf (uniqueTargetsOf (squareReachCounts st)) (squareReacher st)
                  (weightLoop history pieces [])"
    and "0 < foldl dblAdd 0 (map snd pool)"
  shows "generateTargetSquare pieces history u
           = Some (weightedDraw pool (dblMul u (foldl dblAdd 0 (map snd pool))))"
  using assms by (simp add: generateTargetSquare_def Let_def)


















lemma reachability_cornerKnight:
  "reachability cornerKnight =
   Some \<lparr>pieceMoves = [(''p-0'', [10]), (''p-1'', [])], squareReachCounts = [(10, 1)],
         squareReacher = [(10, ''p-0'')]\<rparr>"
  by code_simp

lemma generateTargetSquare_cornerKnight:
  "generateTargetSquare cornerKnight [] (1 / 2) = Some (Returned 10)"
proof -
  have t: "uniqueTargetsOf [(10, 1)] = [10]" by (simp add: uniqueTargetsOf_def)
  have w: "weightLoop [] cornerKnight [] = [(''p-0'', 1), (''p-1'', 1)]"
    by (simp add: cornerKnight_def mkPiece_def mapSet_def pieceWeight_raw rawWeight_def dbl_eval)
  have p: "weightedPoolOf [10] [(10, ''p-0'')] (weightLoop [] cornerKnight []) = [(10, 1)]"
    by (simp add: weightedPoolOf_def w)
  have "generateTargetSquare cornerKnight [] (1 / 2)
      = Some (weightedDraw [(10, 1)] (dblMul (1 / 2) (foldl dblAdd 0 (map snd [(10 :: int, 1 :: real)]))))"
    by (rule generateTargetSquare_weighted [OF reachability_cornerKnight])
       (simp_all add: t p dbl_eval del: One_nat_def)
  then show ?thesis by (simp add: weightedDraw_def dbl_eval)
qed

section \<open>The reachability loop\<close>

lemma validMovesOf_validMoves: "validMovesOf pieces p = Some (validMoves pieces p)"
  by (simp add: validMovesOf_def validMoves_def getLegalMoves_legalMoves)

lemma reachLoop_reachFold: "reachLoop pieces ps st = Some (reachFold pieces ps st)"
  by (induction ps arbitrary: st) (simp_all add: validMovesOf_validMoves)

lemma reachability_reachFold:
  "reachability pieces =
   Some (reachFold pieces pieces \<lparr>pieceMoves = [], squareReachCounts = [], squareReacher = []\<rparr>)"
  by (simp add: reachability_def reachLoop_reachFold)

lemma reaches_validMoves: "reaches pieces p s \<longleftrightarrow> s \<in> set (validMoves pieces p)"
  by (simp add: reaches_def validMovesOf_validMoves)

lemma distinct_validMoves: "distinct (validMoves pieces p)"
  by (simp add: validMoves_def distinct_legalMoves)


lemma validMoves_empty_square:
  "m \<in> set (validMoves pieces p) \<Longrightarrow> q \<in> set pieces \<Longrightarrow> square q \<noteq> m"
  by (auto simp: validMoves_def list_ex_iff)

lemma set_mapSet: "set (mapSet m k v) \<subseteq> insert (k, v) (set m)"
  unfolding mapSet_def by (induction m) auto

lemma keys_mapSet: "fst ` set (mapSet m k v) = insert k (fst ` set m)"
  by (simp add: mapSet_def dom_update)



lemma pieceMoves_countMoves: "pieceMoves (countMoves pid ms st) = pieceMoves st"
  by (induction pid ms st rule: countMoves.induct) (simp_all add: Let_def)

lemma keys_countMoves:
  "fst ` set (squareReachCounts (countMoves pid ms st)) = fst ` set (squareReachCounts st) \<union> set ms"
  by (induction pid ms st rule: countMoves.induct) (auto simp: Let_def keys_mapSet)





lemma reachFold_append:
  "reachFold pieces (xs @ ys) st = reachFold pieces ys (reachFold pieces xs st)"
  by (induction xs arbitrary: st) simp_all

lemma keys_reachFold:
  "fst ` set (squareReachCounts (reachFold pieces ps st)) =
   fst ` set (squareReachCounts st) \<union> (\<Union>p \<in> set ps. set (validMoves pieces p))"
  by (induction ps arbitrary: st) (auto simp: keys_countMoves)



lemma stored_moves_reachFold:
  "e \<in> set (pieceMoves (reachFold pieces ps st)) \<Longrightarrow>
   e \<in> set (pieceMoves st) \<or> (\<exists>p \<in> set ps. snd e = validMoves pieces p)"
proof (induction ps arbitrary: st)
  case Nil
  then show ?case by simp
next
  case (Cons p ps)
  from Cons.IH [OF Cons.prems [unfolded reachFold.simps]]
  show ?case
    using set_mapSet [of "pieceMoves st" "idP p" "validMoves pieces p"]
    by (auto simp: pieceMoves_countMoves)
qed


lemma reachFold_idle:
  "\<forall>q \<in> set ps. validMoves pieces q = [] \<Longrightarrow>
   squareReachCounts (reachFold pieces ps st) = squareReachCounts st
   \<and> squareReacher (reachFold pieces ps st) = squareReacher st"
  by (induction ps arbitrary: st) simp_all

section \<open>What the selector returns\<close>

lemma nthJs_mem: "nthJs xs i = Returned s \<Longrightarrow> s \<in> set xs"
  by (auto simp: nthJs_def split: if_splits)

lemma randomIndex_range:
  assumes "0 \<le> u" "u < 1" "0 < n"
  shows "0 \<le> randomIndex u n" and "randomIndex u n < int n"
proof -
  from assms have "0 \<le> u * real n" by simp
  then show "0 \<le> randomIndex u n" by (simp add: randomIndex_def)
  from assms have "u * real n < 1 * real n" by (intro mult_strict_right_mono) simp_all
  then have "u * real n < of_int (int n)" by simp
  then show "randomIndex u n < int n" unfolding randomIndex_def by (simp only: floor_less_iff)
qed

lemma nthJs_randomIndex:
  assumes "0 \<le> u" "u < 1" "xs \<noteq> []"
  shows "nthJs xs (randomIndex u (length xs)) = Returned (xs ! nat \<lfloor>u * real (length xs)\<rfloor>)"
    and "nat \<lfloor>u * real (length xs)\<rfloor> < length xs"
proof -
  from assms(3) have "0 < length xs" by simp
  from randomIndex_range [OF assms(1,2) this]
  have r: "0 \<le> randomIndex u (length xs)" "randomIndex u (length xs) < int (length xs)" .
  then show "nthJs xs (randomIndex u (length xs)) = Returned (xs ! nat \<lfloor>u * real (length xs)\<rfloor>)"
    by (simp add: nthJs_def) (simp add: randomIndex_def)
  from r show "nat \<lfloor>u * real (length xs)\<rfloor> < length xs"
    by (simp add: randomIndex_def nat_less_iff)
qed

lemma uniqueTargets_subset: "set (uniqueTargetsOf counts) \<subseteq> fst ` set counts"
  by (auto simp: uniqueTargetsOf_def)

lemma set_allMovesOf: "s \<in> set (allMovesOf pm) \<longleftrightarrow> (\<exists>e \<in> set pm. s \<in> set (snd e))"
  by (auto simp: allMovesOf_def)

lemma final_targets_valid:
  assumes "reachability pieces = Some st"
  shows "s \<in> set (uniqueTargetsOf (squareReachCounts st)) \<Longrightarrow>
           \<exists>p \<in> set pieces. s \<in> set (validMoves pieces p)"
    and "s \<in> set (allMovesOf (pieceMoves st)) \<Longrightarrow>
           \<exists>p \<in> set pieces. s \<in> set (validMoves pieces p)"
proof -
  from assms have st: "st = reachFold pieces pieces \<lparr>pieceMoves = [], squareReachCounts = [], squareReacher = []\<rparr>"
    by (simp add: reachability_reachFold)
  {
    assume "s \<in> set (uniqueTargetsOf (squareReachCounts st))"
    with uniqueTargets_subset have "s \<in> fst ` set (squareReachCounts st)" by blast
    then show "\<exists>p \<in> set pieces. s \<in> set (validMoves pieces p)"
      unfolding st keys_reachFold by simp
  }
  {
    assume "s \<in> set (allMovesOf (pieceMoves st))"
    then obtain e where e: "e \<in> set (pieceMoves st)" "s \<in> set (snd e)"
      unfolding set_allMovesOf by blast
    from stored_moves_reachFold [OF e(1) [unfolded st]] e(2)
    show "\<exists>p \<in> set pieces. s \<in> set (validMoves pieces p)" by auto
  }
qed

text \<open>The shape of every result: the sentinel, \<open>undefined\<close>, or a valid move of some piece.\<close>

lemma generateTargetSquare_cases:
  assumes "generateTargetSquare pieces history u = Some r"
  shows "r = Returned (- 1) \<or> r = ReturnedUndefined
       \<or> (\<exists>s. r = Returned s \<and> (\<exists>p \<in> set pieces. s \<in> set (validMoves pieces p)))"
proof -
  obtain st where st: "reachability pieces = Some st"
    by (simp add: reachability_reachFold)
  let ?ut = "uniqueTargetsOf (squareReachCounts st)"
  let ?am = "allMovesOf (pieceMoves st)"
  let ?pool = "weightedPoolOf ?ut (squareReacher st) (weightLoop history pieces [])"
  consider (sentinel) "?ut = []" "?am = []"
    | (fallback) "?ut = []" "?am \<noteq> []"
    | (uniform) "?ut \<noteq> []" "foldl dblAdd 0 (map snd ?pool) \<le> 0"
    | (weighted) "?ut \<noteq> []" "0 < foldl dblAdd 0 (map snd ?pool)"
    by fastforce
  then show ?thesis
  proof cases
    case sentinel
    with assms st show ?thesis by (simp add: generateTargetSquare_def)
  next
    case fallback
    with assms st have r: "r = nthJs ?am (randomIndex u (length ?am))"
      by (simp add: generateTargetSquare_def Let_def)
    show ?thesis
    proof (cases r)
      case (Returned s)
      with r nthJs_mem have "s \<in> set ?am" by metis
      from final_targets_valid(2) [OF st this] Returned show ?thesis by simp
    next
      case ReturnedUndefined
      then show ?thesis by simp
    next
      case Thrown
      with r show ?thesis by (simp add: nthJs_def split: if_splits)
    qed
  next
    case uniform
    with assms st have r: "r = nthJs ?ut (randomIndex u (length ?ut))"
      by (simp add: generateTargetSquare_def Let_def)
    show ?thesis
    proof (cases r)
      case (Returned s)
      with r nthJs_mem have "s \<in> set ?ut" by metis
      from final_targets_valid(1) [OF st this] Returned show ?thesis by simp
    next
      case ReturnedUndefined
      then show ?thesis by simp
    next
      case Thrown
      with r show ?thesis by (simp add: nthJs_def split: if_splits)
    qed
  next
    case weighted
    with assms st have r: "r = weightedDraw ?pool (dblMul u (foldl dblAdd 0 (map snd ?pool)))"
      by (simp add: generateTargetSquare_def Let_def)
    from weighted(1) have "?pool \<noteq> []" by (simp add: weightedPool_Nil)
    from weightedDraw_Returned [OF this, of "dblMul u (foldl dblAdd 0 (map snd ?pool))"] r
    obtain s where "r = Returned s" "s \<in> set ?ut" unfolding keys_weightedPool by auto
    with final_targets_valid(1) [OF st] show ?thesis by simp
  qed
qed

text \<open>
  C1. For every list of pieces and every history the call returns, and whenever it
  returns a square (a number other than the sentinel -1), that square is not the
  current square of any piece of the list. This holds on every path: the fallback
  draw, the uniform draw among unique targets and the weighted draw. (It needs neither
  distinct squares nor squares within [0,63], so it holds in particular for the lists
  the claim speaks of.)
\<close>

theorem target_never_occupied:
  "(\<exists>r. generateTargetSquare pieces history u = Some r)
   \<and> (\<forall>s. generateTargetSquare pieces history u = Some (Returned s) \<and> s \<noteq> - 1 \<longrightarrow>
         (\<forall>p \<in> set pieces. square p \<noteq> s))"
proof (intro conjI allI impI ballI)
  show "\<exists>r. generateTargetSquare pieces history u = Some r"
    by (simp add: generateTargetSquare_def reachability_reachFold)
next
  fix s p
  assume a: "generateTargetSquare pieces history u = Some (Returned s) \<and> s \<noteq> - 1"
    and p: "p \<in> set pieces"
  from generateTargetSquare_cases [of pieces history u "Returned s"] a
  obtain q where "q \<in> set pieces" "s \<in> set (validMoves pieces q)" by auto
  from validMoves_empty_square [OF this(2) p] show "square p \<noteq> s" .
qed

theorem target_never_occupied_witness:
  "generateTargetSquare cornerKnight [] (1 / 2) = Some (Returned 10) \<and> (10::int) \<noteq> - 1
   \<and> 10 \<notin> set (map square cornerKnight)"
proof -
  have g: "generateTargetSquare cornerKnight [] (1 / 2) = Some (Returned 10)"
    by (rule generateTargetSquare_cornerKnight)
  with target_never_occupied [of cornerKnight "[]" "1 / 2"]
  have "\<forall>p \<in> set cornerKnight. square p \<noteq> 10" by simp
  then have "10 \<notin> set (map square cornerKnight)" by auto
  with g show ?thesis by simp
qed


lemma singleton_list: "distinct xs \<Longrightarrow> set xs = {s} \<Longrightarrow> xs = [s]"
  by (cases xs) (auto simp: subset_singleton_iff)

lemma single_pool_draw: "weightedDraw [(s, w)] r = Returned s"
  by (simp add: weightedDraw_def)

lemma single_target_result:
  assumes "reachability pieces = Some st" "uniqueTargetsOf (squareReachCounts st) = [s]"
    and "0 \<le> u" "u < 1"
  shows "generateTargetSquare pieces history u = Some (Returned s)"
proof -
  have n: "nthJs [s] (randomIndex u (length [s])) = Returned s"
    using nthJs_randomIndex(1) [OF assms(3,4), of "[s]"] nthJs_randomIndex(2) [OF assms(3,4), of "[s]"]
    by simp
  show ?thesis
    using assms(1,2) n
    by (subst generateTargetSquare_def) (simp add: Let_def weightedPoolOf_def single_pool_draw)
qed

text \<open>
  C6. If exactly one square \<open>s\<close> has reachability count 1, the one piece that reaches
  it is the piece whose id fills the last two history entries (so that its weight is
  0), and no other square is in any piece's valid move set, then the call returns \<open>s\<close>
  (for every value \<open>Math.random()\<close> can yield).
\<close>

theorem sole_target_still_returned:
  assumes "reachCount pieces s = 1"
    and "p \<in> set pieces" "reaches pieces p s"
    and "\<forall>q \<in> set pieces. \<forall>m. reaches pieces q m \<longrightarrow> m = s"
    and "2 \<le> length history" "last history = idP p" "last (butlast history) = idP p"
    and "0 \<le> u" "u < 1"
  shows "pieceWeight history (idP p) = 0
       \<and> generateTargetSquare pieces history u = Some (Returned s)"
proof
  from assms(5-7) show "pieceWeight history (idP p) = 0"
    by (simp add: pieceWeight_raw)
next
  let ?R = "\<lambda>q. s \<in> set (validMoves pieces q)"
  from assms(1) have "length (filter ?R pieces) = 1"
    by (simp add: reachCount_def reaches_validMoves)
  then obtain y where y: "filter ?R pieces = [y]"
    by (cases "filter ?R pieces") auto
  then obtain us vs where split: "pieces = us @ y # vs"
    and us: "\<forall>q \<in> set us. \<not> ?R q" and "?R y" and vs: "[] = filter ?R vs"
    unfolding filter_eq_Cons_iff by blast
  from vs [symmetric] have vs': "\<forall>q \<in> set vs. \<not> ?R q" by (simp only: filter_empty_conv)
  have only: "set (validMoves pieces q) \<subseteq> {s}" if "q \<in> set pieces" for q
    using assms(4) that by (auto simp: reaches_validMoves)
  have idle: "validMoves pieces q = []" if "q \<in> set us \<union> set vs" for q
  proof -
    from that split have "q \<in> set pieces" by auto
    from that us vs' have "s \<notin> set (validMoves pieces q)" by auto
    with only [OF \<open>q \<in> set pieces\<close>] show ?thesis
      by (cases "validMoves pieces q") auto
  qed
  have "y \<in> set pieces" using split by simp
  from only [OF this] \<open>?R y\<close> have "set (validMoves pieces y) = {s}" by auto
  with distinct_validMoves have vy: "validMoves pieces y = [s]" by (rule singleton_list)
  let ?init = "\<lparr>pieceMoves = [], squareReachCounts = [], squareReacher = []\<rparr>"
  let ?st1 = "reachFold pieces us ?init"
  have c1: "squareReachCounts ?st1 = []"
    using reachFold_idle [of us pieces ?init] idle by simp
  let ?st2 = "reachFold pieces [y] ?st1"
  have c2: "squareReachCounts ?st2 = [(s, 1)]"
    by (simp add: vy c1 Let_def mapSet_def)
  let ?st3 = "reachFold pieces vs ?st2"
  have c3: "squareReachCounts ?st3 = [(s, 1)]"
    using reachFold_idle [of vs pieces ?st2] idle c2 by simp
  have "reachFold pieces pieces ?init = ?st3"
    unfolding split by (simp only: reachFold_append append_Cons [symmetric] append_Nil [symmetric])
       (simp add: reachFold_append)
  then have r: "reachability pieces = Some ?st3"
    by (simp add: reachability_reachFold)
  have "uniqueTargetsOf (squareReachCounts ?st3) = [s]"
    unfolding c3 by (simp add: uniqueTargetsOf_def)
  from single_target_result [OF r this assms(8,9)]
  show "generateTargetSquare pieces history u = Some (Returned s)" .
qed

lemma cornerKnight_knight: "validMovesOf cornerKnight (mkPiece ''p-0'' KNIGHT 0) = Some [10]"
  by code_simp

lemma cornerKnight_pawn: "validMovesOf cornerKnight (mkPiece ''p-1'' PAWN 17) = Some []"
  by code_simp

lemma set_cornerKnight:
  "set cornerKnight = {mkPiece ''p-0'' KNIGHT 0, mkPiece ''p-1'' PAWN 17}"
  by (simp add: cornerKnight_def)

theorem sole_target_still_returned_witness:
  "reachCount cornerKnight 10 = 1
   \<and> mkPiece ''p-0'' KNIGHT 0 \<in> set cornerKnight
   \<and> reaches cornerKnight (mkPiece ''p-0'' KNIGHT 0) 10
   \<and> \<not> reaches cornerKnight (mkPiece ''p-0'' KNIGHT 0) 17
   \<and> last [''p-1'', ''p-0'', ''p-0''] = idP (mkPiece ''p-0'' KNIGHT 0)
   \<and> last (butlast [''p-1'', ''p-0'', ''p-0'']) = idP (mkPiece ''p-0'' KNIGHT 0)
   \<and> pieceWeight [''p-1'', ''p-0'', ''p-0''] ''p-0'' = 0
   \<and> generateTargetSquare cornerKnight [''p-1'', ''p-0'', ''p-0''] (1 / 2) = Some (Returned 10)"
proof -
  have h1: "reachCount cornerKnight 10 = 1" by code_simp
  have h2: "mkPiece ''p-0'' KNIGHT 0 \<in> set cornerKnight" by (simp add: set_cornerKnight)
  have h3: "reaches cornerKnight (mkPiece ''p-0'' KNIGHT 0) 10"
    by (simp add: reaches_def cornerKnight_knight cornerKnight_pawn)
  have h4: "\<forall>q \<in> set cornerKnight. \<forall>m. reaches cornerKnight q m \<longrightarrow> m = 10"
    unfolding set_cornerKnight by (simp add: reaches_def cornerKnight_knight cornerKnight_pawn)
  have i: "idP (mkPiece ''p-0'' KNIGHT 0) = ''p-0''" by (simp add: mkPiece_def)
  have l: "last [''p-1'', ''p-0'', ''p-0''] = idP (mkPiece ''p-0'' KNIGHT 0)"
    "last (butlast [''p-1'', ''p-0'', ''p-0'']) = idP (mkPiece ''p-0'' KNIGHT 0)"
    by (simp_all add: i)
  have c: "pieceWeight [''p-1'', ''p-0'', ''p-0''] ''p-0'' = 0
      \<and> generateTargetSquare cornerKnight [''p-1'', ''p-0'', ''p-0''] (1 / 2) = Some (Returned 10)"
    using sole_target_still_returned [OF h1 h2 h3 h4 _ l, of "1 / 2"] by (simp add: i)
  have h5: "\<not> reaches cornerKnight (mkPiece ''p-0'' KNIGHT 0) 17"
    by (simp add: reaches_def cornerKnight_knight)
  show ?thesis
    by (intro conjI) (rule h1 h2 h3 h5 l conjunct1 [OF c] conjunct2 [OF c])+
qed

















end
